theory Spec2Isabelle
  imports Complex_Main "HOL-Library.Sublist" "HOL-Library.AList" "HOL-Library.Multiset"
begin

section \<open>Python text primitives used by the engine\<close>

text \<open>
  Python's \<open>str\<close> is a sequence of code points. The embedding works on \<^typ>\<open>string\<close>,
  one \<^typ>\<open>char\<close> per code point, so it covers text whose code points are below 256.
  On that range the functions below are the ones of CPython: \<open>str.isspace\<close> (also the
  class \<open>\s\<close> of \<open>re\<close> on a \<open>str\<close> pattern), \<open>str.lower\<close>, \<open>str.strip\<close>,
  \<open>str.split\<close> without argument, \<open>str.join\<close> and the substring test \<open>a in b\<close>.
\<close>

definition isspace :: "char \<Rightarrow> bool" where
  "isspace c = (c \<in> set [CHR 0x09, CHR 0x0A, CHR 0x0B, CHR 0x0C, CHR 0x0D,
                           CHR 0x1C, CHR 0x1D, CHR 0x1E, CHR 0x1F, CHR 0x20,
                           CHR 0x85, CHR 0xA0])"

definition lower_char :: "char \<Rightarrow> char" where
  "lower_char c = (let n = (of_char c :: nat) in
     if (65 \<le> n \<and> n \<le> 90) \<or> (192 \<le> n \<and> n \<le> 222 \<and> n \<noteq> 215)
     then char_of (n + 32) else c)"

definition lower :: "string \<Rightarrow> string" where
  "lower s = map lower_char s"

definition strip :: "string \<Rightarrow> string" where
  "strip s = rev (dropWhile isspace (rev (dropWhile isspace s)))"

text \<open>\<open>s.split()\<close>: the maximal runs of non-whitespace characters, in order.\<close>

function split_ws :: "string \<Rightarrow> string list" where
  "split_ws [] = []"
| "split_ws (c # cs) =
     (if isspace c then split_ws cs
      else (c # takeWhile (\<lambda>x. \<not> isspace x) cs)
             # split_ws (dropWhile (\<lambda>x. \<not> isspace x) cs))"
  by pat_completeness auto
termination
  by (relation "measure length") (auto simp: less_Suc_eq_le length_dropWhile_le)

text \<open>\<open>sep.join(xs)\<close>.\<close>

fun join :: "string \<Rightarrow> string list \<Rightarrow> string" where
  "join sep [] = []"
| "join sep [x] = x"
| "join sep (x # y # ys) = x @ sep @ join sep (y # ys)"

text \<open>\<open>needle in hay\<close> on strings: \<open>needle\<close> occurs as a contiguous block of \<open>hay\<close>.\<close>

fun str_in :: "string \<Rightarrow> string \<Rightarrow> bool" where
  "str_in needle [] = (needle = [])"
| "str_in needle (c # cs) = (prefix needle (c # cs) \<or> str_in needle cs)"

text \<open>\<open>string.punctuation\<close>, the 32 ASCII punctuation characters.\<close>

definition string_punctuation :: string where
  "string_punctuation =
     CHR ''!'' # CHR 0x22 # ''#$%&'' @ CHR 0x27 # ''()*+,-./:;<=>?@['' @ CHR 0x5C
       # '']^_'' @ CHR 0x60 # ''{|}~''"

text \<open>\<open>str(n)\<close> for an integer, as the f-string of \<open>_validate_query\<close> renders it.\<close>

fun digits :: "nat \<Rightarrow> string" where
  "digits n = (if n < 10 then [char_of (48 + n)]
               else digits (n div 10) @ [char_of (48 + n mod 10)])"

definition str_int :: "int \<Rightarrow> string" where
  "str_int i = (if i < 0 then CHR ''-'' # digits (nat (- i)) else digits (nat i))"

text \<open>
  \<open>repr\<close> of a tuple of strings, as \<open>{doc._fields}\<close> is rendered in an f-string. The
  field names of a namedtuple are identifiers, so each one prints between single quotes
  with no escape; a one-element tuple carries a trailing comma.
\<close>

definition repr_str :: "string \<Rightarrow> string" where
  "repr_str s = CHR 0x27 # s @ [CHR 0x27]"

definition repr_tuple :: "string list \<Rightarrow> string" where
  "repr_tuple xs =
     (case xs of
        [x] \<Rightarrow> ''('' @ repr_str x @ '',)''
      | _ \<Rightarrow> ''('' @ join '', '' (map repr_str xs) @ '')'')"

section \<open>util.py\<close>

text \<open>
  Exceptions are values. \<open>InvalidQueryError\<close> is the class of \<open>util.py\<close>;
  \<open>AttributeError\<close> and \<open>IndexError\<close> are the built-in ones the engine can raise. Each
  carries its message.
\<close>

datatype error =
    InvalidQueryError string
  | AttributeError string
  | IndexError string

text \<open>
  A row of the corpus is an instance of the namedtuple class \<open>Document\<close> that
  \<open>_load_corpus\<close> creates from the header: \<open>field_names\<close> is its \<open>_fields\<close>, \<open>vals\<close> the
  cells of the row (the \<open>csv\<close> reader yields strings only).
\<close>

record Document =
  field_names :: "string list"
  vals :: "string list"

text \<open>
  The values a response is made of: Python's \<open>str\<close>, \<open>float\<close>, \<open>list\<close> and \<open>dict\<close>
  (a \<open>dict\<close> keeps its keys in insertion order).
\<close>

datatype json =
    JString string
  | JNumber real
  | JArray "json list"
  | JObject "(string \<times> json) list"

text \<open>
  \<open>dict(pairs)\<close>: a key that comes again keeps its first place and takes the later value.
\<close>

definition py_dict :: "(string \<times> 'v) list \<Rightarrow> (string \<times> 'v) list" where
  "py_dict kvs = foldl (\<lambda>d (k, v). AList.update k v d) [] kvs"

text \<open>
  Class \<open>Results\<close>. Its constructor multiplies the elapsed nanoseconds by the float
  \<open>1e-6\<close>; floating-point multiplication is not part of the embedding and is taken as the
  parameter \<open>mul_1e_6\<close>, which maps the integer to the resulting float.
\<close>

record Results =
  query :: string
  data :: "Document list"
  execution_time :: real

definition Results_init :: "(int \<Rightarrow> real) \<Rightarrow> string \<Rightarrow> Document list \<Rightarrow> int \<Rightarrow> Results" where
  "Results_init mul_1e_6 q results elapsed_ns =
     \<lparr>query = q, data = results, execution_time = mul_1e_6 elapsed_ns\<rparr>"

definition document_dict :: "Document \<Rightarrow> json" where
  "document_dict document = JObject (py_dict (zip (field_names document) (map JString (vals document))))"


definition len_results :: "Results \<Rightarrow> nat" where
  "len_results r = length (data r)"

text \<open>\<open>keyword.kwlist\<close>.\<close>

definition kwlist :: "string list" where
  "kwlist =
     [''False'', ''None'', ''True'', ''and'', ''as'', ''assert'', ''async'', ''await'',
      ''break'', ''class'', ''continue'', ''def'', ''del'', ''elif'', ''else'', ''except'',
      ''finally'', ''for'', ''from'', ''global'', ''if'', ''import'', ''in'', ''is'',
      ''lambda'', ''nonlocal'', ''not'', ''or'', ''pass'', ''raise'', ''return'', ''try'',
      ''while'', ''with'', ''yield'']"

text \<open>\<open>re.sub('[\s\t\n]+', '_', s)\<close>: every maximal run of whitespace becomes one underscore.\<close>

function spaces_to_underscores :: "string \<Rightarrow> string" where
  "spaces_to_underscores [] = []"
| "spaces_to_underscores (c # cs) =
     (if isspace c then CHR ''_'' # spaces_to_underscores (dropWhile isspace cs)
      else c # spaces_to_underscores cs)"
  by pat_completeness auto
termination
  by (relation "measure length") (auto simp: less_Suc_eq_le length_dropWhile_le)

definition is_ascii_letter :: "char \<Rightarrow> bool" where
  "is_ascii_letter c = (let n = (of_char c :: nat) in (65 \<le> n \<and> n \<le> 90) \<or> (97 \<le> n \<and> n \<le> 122))"

definition is_ascii_digit :: "char \<Rightarrow> bool" where
  "is_ascii_digit c = (let n = (of_char c :: nat) in 48 \<le> n \<and> n \<le> 57)"

text \<open>
  The loop \<open>while s in keyword.kwlist: s += '_1'\<close>. No keyword followed by \<open>_1\<close> is a
  keyword, which bounds the loop.
\<close>

function avoid_keywords :: "string \<Rightarrow> string" where
  "avoid_keywords s = (if s \<in> set kwlist then avoid_keywords (s @ ''_1'') else s)"
  by pat_completeness auto
termination
  by (relation "measure (\<lambda>s. if s \<in> set kwlist then 1 else 0)") (auto simp: kwlist_def)

definition sanitize :: "string \<Rightarrow> string" where
  "sanitize string =
     (let s = lower string;
          s = strip s;
          s = spaces_to_underscores s;
          s = filter (\<lambda>c. is_ascii_digit c \<or> is_ascii_letter c \<or> c = CHR ''_'') s;
          s = dropWhile (\<lambda>c. \<not> (is_ascii_letter c \<or> c = CHR ''_'')) s
      in s)"

definition make_python_identifier :: "string \<Rightarrow> string" where
  "make_python_identifier string = avoid_keywords (sanitize string)"

section \<open>engines.py\<close>

text \<open>
  The engine holds the corpus and the index: a dictionary from a term to the set of the
  positions of the documents that match it. A name of the source that starts with an
  underscore is written without it: \<open>_get_results\<close> is \<open>get_results\<close>, \<open>_fuzzify\<close> is
  \<open>fuzzify\<close>, and so on. A loop that appends to a list is a recursion that builds the
  same list.
\<close>

record engine =
  corpus :: "Document list"
  index :: "string \<rightharpoonup> nat set"

definition clean_string :: "string \<Rightarrow> string" where
  "clean_string term = filter (\<lambda>c. c \<notin> set string_punctuation) (lower term)"

definition fuzzify :: "string \<Rightarrow> string list" where
  "fuzzify word = (let words = map (\<lambda>n. take n word) [3 ..< length word + 1]
                   in words @ [word])"


text \<open>
  \<open>_validate_query\<close>; \<open>evaluate_query\<close> calls it with the default \<open>n = 3\<close>.
\<close>

definition validate_query :: "string \<Rightarrow> int \<Rightarrow> error + unit" where
  "validate_query q n =
     (if int (length (strip q)) < n
      then Inl (InvalidQueryError (''Query must be at least '' @ str_int n @ '' characters''))
      else Inr ())"

subsection \<open>Building the index\<close>

text \<open>\<open>index.setdefault(x, set()).add(idx)\<close>.\<close>

definition index_add :: "nat \<Rightarrow> string \<Rightarrow> (string \<rightharpoonup> nat set) \<Rightarrow> (string \<rightharpoonup> nat set)" where
  "index_add idx x ix = ix(x \<mapsto> insert idx (case ix x of None \<Rightarrow> {} | Some s \<Rightarrow> s))"

text \<open>The body of the loop of \<open>_build_index\<close> for one document, and the loop itself.\<close>

definition index_document :: "nat \<Rightarrow> Document \<Rightarrow> (string \<rightharpoonup> nat set) \<Rightarrow> (string \<rightharpoonup> nat set)" where
  "index_document idx document ix =
     (let text = join '' '' (vals document);
          text_cleaned = clean_string text
      in fold (\<lambda>token. fold (index_add idx) (fuzzify token)) (split_ws text_cleaned) ix)"

definition build_index :: "Document list \<Rightarrow> (string \<rightharpoonup> nat set)" where
  "build_index docs = fold (\<lambda>(idx, document). index_document idx document) (enumerate 0 docs) Map.empty"

text \<open>
  \<open>__init__\<close> once \<open>_load_corpus\<close> has read the rows: the engine of a corpus.
\<close>

definition init_engine :: "Document list \<Rightarrow> engine" where
  "init_engine docs = \<lparr>corpus = docs, index = build_index docs\<rparr>"

subsection \<open>Looking a query up\<close>

text \<open>
  The first loop of \<open>_get_results\<close>: the index entries of the terms of the query, in
  order; a term with no entry, or with an empty one, adds nothing.
\<close>

fun idx_matchs_all :: "(string \<rightharpoonup> nat set) \<Rightarrow> string list \<Rightarrow> nat set list" where
  "idx_matchs_all ix [] = []"
| "idx_matchs_all ix (t # ts) =
     (case ix t of
        None \<Rightarrow> idx_matchs_all ix ts
      | Some m \<Rightarrow> if m = {} then idx_matchs_all ix ts else m # idx_matchs_all ix ts)"

text \<open>\<open>[self._corpus[idx] for idx in idxs]\<close>; a position outside the corpus raises.\<close>

fun corpus_lookup :: "Document list \<Rightarrow> nat list \<Rightarrow> error + Document list" where
  "corpus_lookup docs [] = Inr []"
| "corpus_lookup docs (i # is) =
     (if i < length docs
      then (case corpus_lookup docs is of Inl e \<Rightarrow> Inl e | Inr ds \<Rightarrow> Inr (docs ! i # ds))
      else Inl (IndexError ''list index out of range''))"

text \<open>
  The order in which Python iterates over a set is a matter of the interpreter. It is the
  parameter \<open>set_order\<close>, of which the theorems ask only that it lists each element of a
  finite set once.
\<close>

definition lists_each_once :: "(nat set \<Rightarrow> nat list) \<Rightarrow> bool" where
  "lists_each_once set_order = (\<forall>S. finite S \<longrightarrow> set (set_order S) = S \<and> distinct (set_order S))"

definition get_results :: "(nat set \<Rightarrow> nat list) \<Rightarrow> engine \<Rightarrow> string \<Rightarrow> error + Document list" where
  "get_results set_order eng q =
     (case idx_matchs_all (index eng) (split_ws q) of
        [] \<Rightarrow> Inr []
      | m # ms \<Rightarrow> (let idxs = foldl (\<inter>) m ms in corpus_lookup (corpus eng) (set_order idxs)))"

subsection \<open>Sorting the results\<close>

text \<open>
  \<open>getattr(doc, name)\<close> on a namedtuple instance. A field gives its cell. Every instance
  also has the attributes of its class and of \<open>tuple\<close> (here as of CPython 3.11): the
  docstring and the module name are strings; the others are not, and are kept as the words
  with which an \<open>AttributeError\<close> names them, such as \<open>'tuple' object\<close> (a method is
  named by its function). The result \<open>None\<close> stands for the \<open>AttributeError\<close> of
  \<open>getattr\<close>.
\<close>

datatype attr_value = AttrStr string | AttrObj string

definition object_of_type :: "string \<Rightarrow> string" where
  "object_of_type type_name = repr_str type_name @ '' object''"

definition namedtuple_attrs :: "(string \<times> string) list" where
  "namedtuple_attrs =
     map (\<lambda>n. (n, object_of_type ''tuple'')) [''_fields'', ''__match_args__'', ''__slots__'']
     @ [(''_field_defaults'', object_of_type ''dict''),
        (''__class__'', ''type object '' @ repr_str ''Document'')]
     @ map (\<lambda>n. (n, object_of_type ''function''))
         [''_make'', ''_replace'', ''_asdict'', ''__getnewargs__'', ''__new__'', ''__repr__'']
     @ map (\<lambda>n. (n, object_of_type ''builtin_function_or_method''))
         [''count'', ''index'', ''__class_getitem__'', ''__dir__'', ''__format__'',
          ''__getstate__'', ''__init_subclass__'', ''__reduce__'', ''__reduce_ex__'',
          ''__sizeof__'', ''__subclasshook__'']
     @ map (\<lambda>n. (n, object_of_type ''method-wrapper''))
         [''__add__'', ''__contains__'', ''__delattr__'', ''__eq__'', ''__ge__'',
          ''__getattribute__'', ''__getitem__'', ''__gt__'', ''__hash__'', ''__init__'',
          ''__iter__'', ''__le__'', ''__len__'', ''__lt__'', ''__mul__'', ''__ne__'',
          ''__rmul__'', ''__setattr__'', ''__str__'']"

definition getattr :: "Document \<Rightarrow> string \<Rightarrow> attr_value option" where
  "getattr doc name =
     (case map_of (zip (field_names doc) (vals doc)) name of
        Some v \<Rightarrow> Some (AttrStr v)
      | None \<Rightarrow>
          if name = ''__doc__''
          then Some (AttrStr (''Document('' @ join '', '' (field_names doc) @ '')''))
          else if name = ''__module__'' then Some (AttrStr ''engines'')
          else map_option AttrObj (map_of namedtuple_attrs name))"

text \<open>
  The error \<open>_sort_results\<close> raises when \<open>getattr\<close> fails, and the error of looking up an
  attribute that an object does not have (\<open>lower\<close> on an attribute that is not a string).
\<close>

definition could_not_sort :: "string \<Rightarrow> Document \<Rightarrow> error" where
  "could_not_sort sort_by doc =
     AttributeError (''Could not sort by '' @ repr_str sort_by @ ''. Please use one of ''
                       @ repr_tuple (field_names doc))"

definition no_attribute :: "string \<Rightarrow> string \<Rightarrow> error" where
  "no_attribute object name =
     AttributeError (object @ '' has no attribute '' @ repr_str name)"

text \<open>
  The loop that splits the results into the documents to sort and the rest. It stops at
  the first document that raises; both lists keep the order of the results.
\<close>

fun partition_docs :: "string \<Rightarrow> string \<Rightarrow> Document list \<Rightarrow> error + Document list \<times> Document list" where
  "partition_docs term sort_by [] = Inr ([], [])"
| "partition_docs term sort_by (doc # docs) =
     (case getattr doc sort_by of
        None \<Rightarrow> Inl (could_not_sort sort_by doc)
      | Some (AttrObj object) \<Rightarrow> Inl (no_attribute object ''lower'')
      | Some (AttrStr text) \<Rightarrow>
          (case partition_docs term sort_by docs of
             Inl e \<Rightarrow> Inl e
           | Inr (to_sort, the_rest) \<Rightarrow>
               if str_in term (clean_string text) then Inr (doc # to_sort, the_rest)
               else Inr (to_sort, doc # the_rest)))"

text \<open>The key function \<open>sorter\<close>; \<open>positions[0]\<close> raises on an empty list.\<close>

definition sorter :: "string \<Rightarrow> string \<Rightarrow> Document \<Rightarrow> error + nat" where
  "sorter term sort_by doc =
     (case getattr doc sort_by of
        None \<Rightarrow> Inl (no_attribute (object_of_type ''Document'') sort_by)
      | Some (AttrObj object) \<Rightarrow> Inl (no_attribute object ''lower'')
      | Some (AttrStr text) \<Rightarrow>
          (let haystack = clean_string text;
               positions = map fst (filter (\<lambda>(i, token). str_in term token)
                                      (enumerate 0 (split_ws haystack)))
           in case positions of
                [] \<Rightarrow> Inl (IndexError ''list index out of range'')
              | p # _ \<Rightarrow> Inr p))"

text \<open>
  \<open>sorted(xs, key=f)\<close>: the key of every element is computed first, in order, then the
  elements are sorted by key, stably. A stable sort by key has one result, so the stable
  insertion sort \<^const>\<open>sort_key\<close> gives the list Python's sort gives.
\<close>

fun decorate :: "('a \<Rightarrow> error + nat) \<Rightarrow> 'a list \<Rightarrow> error + (nat \<times> 'a) list" where
  "decorate f [] = Inr []"
| "decorate f (x # xs) =
     (case f x of
        Inl e \<Rightarrow> Inl e
      | Inr k \<Rightarrow> (case decorate f xs of Inl e \<Rightarrow> Inl e | Inr kxs \<Rightarrow> Inr ((k, x) # kxs)))"

definition sorted_by_key :: "('a \<Rightarrow> error + nat) \<Rightarrow> 'a list \<Rightarrow> error + 'a list" where
  "sorted_by_key f xs =
     (case decorate f xs of Inl e \<Rightarrow> Inl e | Inr kxs \<Rightarrow> Inr (map snd (sort_key fst kxs)))"

definition sort_results :: "string \<Rightarrow> Document list \<Rightarrow> string \<Rightarrow> error + Document list" where
  "sort_results q results sort_by =
     (case split_ws q of
        [] \<Rightarrow> Inl (IndexError ''list index out of range'')
      | term # _ \<Rightarrow>
          (let sort_by = make_python_identifier sort_by in
           case partition_docs term sort_by results of
             Inl e \<Rightarrow> Inl e
           | Inr (to_sort, the_rest) \<Rightarrow>
               (case sorted_by_key (sorter term sort_by) to_sort of
                  Inl e \<Rightarrow> Inl e
                | Inr sorted_docs \<Rightarrow> Inr (sorted_docs @ the_rest))))"

subsection \<open>Evaluating a query\<close>

text \<open>
  What \<open>evaluate_query\<close> takes from the interpreter: the iteration order of sets, the
  two readings of \<open>time.time_ns()\<close>, and the float product of \<open>Results\<close>.
\<close>

record runtime =
  set_order :: "nat set \<Rightarrow> nat list"
  time_ns_start :: int
  time_ns_end :: int
  float_mul_1e_6 :: "int \<Rightarrow> real"

text \<open>
  \<open>evaluate_query\<close> returns the envelope or the exception raised, and the engine as the
  call leaves it. \<open>sort_by\<close> is \<open>None\<close> when the caller gives none; \<open>if sort_by:\<close> holds
  for a string that is not empty. Neither \<open>evaluate_query\<close> nor \<open>_get_results\<close> nor
  \<open>_sort_results\<close> assigns to \<open>_corpus\<close> or \<open>_index\<close>, and the objects they hold are only
  read: \<open>set.intersection\<close>, \<open>sorted\<close> and the list comprehension build new objects, and
  \<open>append\<close> and \<open>extend\<close> act on lists made in the call. So the functions they are modelled
  by take the engine and give no new one.
\<close>

definition evaluate_query :: "runtime \<Rightarrow> engine \<Rightarrow> string \<Rightarrow> string option \<Rightarrow> (error + Results) \<times> engine" where
  "evaluate_query rt eng q sort_by =
     (let t1 = time_ns_start rt in
      case validate_query q 3 of
        Inl e \<Rightarrow> (Inl e, eng)
      | Inr _ \<Rightarrow>
          (let query_clean = clean_string q in
           case get_results (set_order rt) eng query_clean of
             Inl e \<Rightarrow> (Inl e, eng)
           | Inr results \<Rightarrow>
               (case (case sort_by of
                        None \<Rightarrow> Inr results
                      | Some s \<Rightarrow> if s = [] then Inr results
                                  else sort_results query_clean results s) of
                  Inl e \<Rightarrow> (Inl e, eng)
                | Inr results \<Rightarrow>
                    (Inr (Results_init (float_mul_1e_6 rt) q results (time_ns_end rt - t1)),
                     eng))))"

text \<open>
  An interpreter for the examples: sets are listed in ascending order, the clock reads
  1000 and 251000 nanoseconds, and the product is taken in the reals.
\<close>

definition example_runtime :: runtime where
  "example_runtime =
     \<lparr>set_order = sorted_list_of_set, time_ns_start = 1000, time_ns_end = 251000,
      float_mul_1e_6 = (\<lambda>n. real_of_int n / 1000000)\<rparr>"

section \<open>Specification vocabulary\<close>

text \<open>
  The terms under which a document is indexed, the positions of the documents indexed
  under a term, and the set an index holds for a term (empty when it has no entry).
\<close>

definition document_terms :: "Document \<Rightarrow> string list" where
  "document_terms doc = concat (map fuzzify (split_ws (clean_string (join '' '' (vals doc)))))"

definition positions_of :: "Document list \<Rightarrow> string \<Rightarrow> nat set" where
  "positions_of docs t = {p. p < length docs \<and> t \<in> set (document_terms (docs ! p))}"

definition entry :: "(string \<rightharpoonup> nat set) \<Rightarrow> string \<Rightarrow> nat set" where
  "entry ix t = (case ix t of None \<Rightarrow> {} | Some s \<Rightarrow> s)"

definition nonempty_entries :: "(string \<rightharpoonup> nat set) \<Rightarrow> bool" where
  "nonempty_entries ix = (\<forall>t s. ix t = Some s \<longrightarrow> s \<noteq> {})"


text \<open>
  The cell of a document under a field name, whether the cleaned cell contains the anchor
  term, and the position (from 0) of the first token of the cleaned cell that contains it.
\<close>

definition field_text :: "Document \<Rightarrow> string \<Rightarrow> string option" where
  "field_text doc name = map_of (zip (field_names doc) (vals doc)) name"

definition has_anchor :: "string \<Rightarrow> string \<Rightarrow> Document \<Rightarrow> bool" where
  "has_anchor term name doc =
     (case field_text doc name of None \<Rightarrow> False | Some text \<Rightarrow> str_in term (clean_string text))"

definition anchor_position :: "string \<Rightarrow> string \<Rightarrow> Document \<Rightarrow> nat" where
  "anchor_position term name doc =
     (case field_text doc name of
        None \<Rightarrow> 0
      | Some text \<Rightarrow> length (takeWhile (\<lambda>token. \<not> str_in term token) (split_ws (clean_string text))))"

section \<open>Example data\<close>

text \<open>Two rows of a corpus, and a result list whose second column holds the anchor term
  at different places.\<close>

definition doc1 :: Document where
  "doc1 = \<lparr>field_names = [''document'', ''headerb''], vals = [''Document1'', ''FindMeA1, x'']\<rparr>"

definition doc2 :: Document where
  "doc2 = \<lparr>field_names = [''document'', ''headerb''], vals = [''Document2'', ''y FindMeA1'']\<rparr>"

definition hits :: "Document list" where
  "hits =
     [\<lparr>field_names = [''document'', ''headerb''], vals = [''Document16'', ''x x FindMeA9'']\<rparr>,
      \<lparr>field_names = [''document'', ''headerb''], vals = [''Document20'', ''nothing here'']\<rparr>,
      \<lparr>field_names = [''document'', ''headerb''], vals = [''Document17'', ''x FindMeA9'']\<rparr>,
      \<lparr>field_names = [''document'', ''headerb''], vals = [''Document19'', ''y FindMeA9. z'']\<rparr>,
      \<lparr>field_names = [''document'', ''headerb''], vals = [''Document18'', ''FindMeA9'']\<rparr>]"

section \<open>Text primitives\<close>

text \<open>
  Tokens are non-empty and free of whitespace; a word alone splits into itself; cleaning
  leaves a cleaned string as it is.
\<close>

lemma split_ws_token:
  "t \<in> set (split_ws s) \<Longrightarrow> t \<noteq> [] \<and> (\<forall>c \<in> set t. \<not> isspace c)"
proof (induction s rule: split_ws.induct)
  case 1
  then show ?case by simp
next
  case (2 c cs)
  show ?case
  proof (cases "isspace c")
    case True
    with 2 show ?thesis by simp
  next
    case False
    with 2(3) have "t = c # takeWhile (\<lambda>x. \<not> isspace x) cs
       \<or> t \<in> set (split_ws (dropWhile (\<lambda>x. \<not> isspace x) cs))" by simp
    then show ?thesis
    proof
      assume t: "t = c # takeWhile (\<lambda>x. \<not> isspace x) cs"
      have "\<forall>x \<in> set (takeWhile (\<lambda>x. \<not> isspace x) cs). \<not> isspace x"
        using set_takeWhileD by fastforce
      with t False show ?thesis by simp
    next
      assume "t \<in> set (split_ws (dropWhile (\<lambda>x. \<not> isspace x) cs))"
      with 2(2) False show ?thesis by blast
    qed
  qed
qed

lemma split_ws_token_chars: "t \<in> set (split_ws s) \<Longrightarrow> set t \<subseteq> set s"
proof (induction s rule: split_ws.induct)
  case 1
  then show ?case by simp
next
  case (2 c cs)
  show ?case
  proof (cases "isspace c")
    case True
    with 2 have "set t \<subseteq> set cs" by simp
    then show ?thesis by auto
  next
    case False
    with 2(3) have "t = c # takeWhile (\<lambda>x. \<not> isspace x) cs
       \<or> t \<in> set (split_ws (dropWhile (\<lambda>x. \<not> isspace x) cs))" by simp
    then show ?thesis
    proof
      assume t: "t = c # takeWhile (\<lambda>x. \<not> isspace x) cs"
      have "set (takeWhile (\<lambda>x. \<not> isspace x) cs) \<subseteq> set cs"
        using set_takeWhileD by fastforce
      with t show ?thesis by auto
    next
      assume "t \<in> set (split_ws (dropWhile (\<lambda>x. \<not> isspace x) cs))"
      with 2(2) False have "set t \<subseteq> set (dropWhile (\<lambda>x. \<not> isspace x) cs)" by blast
      moreover have "set (dropWhile (\<lambda>x. \<not> isspace x) cs) \<subseteq> set cs"
        using set_dropWhileD by fastforce
      ultimately show ?thesis by auto
    qed
  qed
qed

lemma split_ws_word:
  assumes "\<forall>c \<in> set a. \<not> isspace c" "a \<noteq> []" "isspace s"
  shows "split_ws (a @ s # rest) = a # split_ws rest"
proof -
  from assms(2) obtain c cs where a: "a = c # cs" by (cases a) auto
  with assms(1) have c: "\<not> isspace c" and cs: "\<forall>x \<in> set cs. \<not> isspace x" by auto
  have tw: "takeWhile (\<lambda>x. \<not> isspace x) (cs @ s # rest) = cs"
    using cs assms(3) by (simp add: takeWhile_tail)
  have dw: "dropWhile (\<lambda>x. \<not> isspace x) (cs @ s # rest) = s # rest"
    using cs assms(3) by (simp add: dropWhile_append3)
  show ?thesis using c assms(3) by (simp add: a tw dw)
qed

lemma split_ws_single:
  assumes "\<forall>c \<in> set a. \<not> isspace c" "a \<noteq> []"
  shows "split_ws a = [a]"
proof -
  from assms(2) obtain c cs where a: "a = c # cs" by (cases a) auto
  with assms(1) have c: "\<not> isspace c" and cs: "\<forall>x \<in> set cs. \<not> isspace x" by auto
  have tw: "takeWhile (\<lambda>x. \<not> isspace x) cs = cs"
    using cs by (simp add: takeWhile_eq_all_conv)
  have dw: "dropWhile (\<lambda>x. \<not> isspace x) cs = []"
    using cs by simp
  show ?thesis using c by (simp add: a tw dw)
qed

lemma isspace_space: "isspace (CHR '' '')"
  by (simp add: isspace_def)

lemma split_ws_pair:
  assumes "\<forall>c \<in> set a. \<not> isspace c" "a \<noteq> []" "\<forall>c \<in> set b. \<not> isspace c" "b \<noteq> []"
  shows "split_ws (a @ '' '' @ b) = [a, b]"
proof -
  have "split_ws (a @ CHR '' '' # b) = a # split_ws b"
    using assms(1,2) isspace_space by (rule split_ws_word)
  then show ?thesis using assms(3,4) by (simp add: split_ws_single)
qed

lemma strip_no_ws:
  assumes "\<forall>c \<in> set a. \<not> isspace c"
  shows "strip a = a"
proof -
  have 1: "dropWhile isspace a = a" using assms by (cases a) auto
  have 2: "dropWhile isspace (rev a) = rev a" using assms by (cases "rev a") auto
  show ?thesis by (simp add: strip_def 1 2)
qed

lemma strip_word:
  assumes "a \<noteq> []" "\<not> isspace (hd a)" "\<not> isspace (last a)"
  shows "strip a = a"
proof -
  from assms(1,2) have 1: "dropWhile isspace a = a" by (cases a) auto
  from assms(1,3) have 2: "dropWhile isspace (rev a) = rev a"
    by (cases a rule: rev_cases) auto
  show ?thesis by (simp add: strip_def 1 2)
qed

lemma lower_char_idem: "lower_char (lower_char c) = lower_char c"
proof -
  define n where "n = (of_char c :: nat)"
  show ?thesis
  proof (cases "(65 \<le> n \<and> n \<le> 90) \<or> (192 \<le> n \<and> n \<le> 222 \<and> n \<noteq> 215)")
    case True
    then have l: "lower_char c = char_of (n + 32)"
      by (simp add: lower_char_def Let_def n_def)
    from True have "(n + 32) mod 256 = n + 32" by auto
    then have m: "(of_char (char_of (n + 32) :: char) :: nat) = n + 32" by simp
    have "lower_char (char_of (n + 32)) = char_of (n + 32)"
      unfolding lower_char_def Let_def m using True by auto
    with l show ?thesis by simp
  next
    case False
    then have "lower_char c = c" by (auto simp: lower_char_def Let_def n_def)
    then show ?thesis by simp
  qed
qed

lemma clean_string_chars:
  "c \<in> set (clean_string s) \<Longrightarrow> lower_char c = c \<and> c \<notin> set string_punctuation"
  by (auto simp: clean_string_def lower_def lower_char_idem)

lemma clean_string_fixed:
  assumes "\<forall>c \<in> set p. lower_char c = c \<and> c \<notin> set string_punctuation"
  shows "clean_string p = p"
proof -
  have "map lower_char p = p" using assms by (simp add: map_idI)
  then show ?thesis using assms by (simp add: clean_string_def lower_def)
qed

lemma space_clean: "lower_char (CHR '' '') = CHR '' '' \<and> CHR '' '' \<notin> set string_punctuation"
  by code_simp

lemma str_in_iff: "str_in needle hay \<longleftrightarrow> (\<exists>pre suf. hay = pre @ needle @ suf)"
proof
  assume "str_in needle hay"
  then show "\<exists>pre suf. hay = pre @ needle @ suf"
  proof (induction hay)
    case Nil
    then show ?case by simp
  next
    case (Cons c cs)
    from Cons.prems have "prefix needle (c # cs) \<or> str_in needle cs" by simp
    then show ?case
    proof
      assume "prefix needle (c # cs)"
      then obtain suf where "c # cs = needle @ suf" by (auto simp: prefix_def)
      then have "c # cs = [] @ needle @ suf" by simp
      then show ?thesis by blast
    next
      assume "str_in needle cs"
      with Cons.IH obtain pre suf where "cs = pre @ needle @ suf" by blast
      then have "c # cs = (c # pre) @ needle @ suf" by simp
      then show ?thesis by blast
    qed
  qed
next
  assume "\<exists>pre suf. hay = pre @ needle @ suf"
  then obtain pre suf where "hay = pre @ needle @ suf" by blast
  then show "str_in needle hay"
  proof (induction pre arbitrary: hay)
    case Nil
    then have p: "prefix needle hay" by simp
    show ?case
    proof (cases hay)
      case Nil
      with p show ?thesis by simp
    next
      case (Cons c cs)
      with p show ?thesis by simp
    qed
  next
    case (Cons c pre)
    then have "str_in needle (pre @ needle @ suf)" by simp
    with Cons.prems show ?case by simp
  qed
qed

lemma token_contains:
  assumes "needle \<noteq> []" and "\<forall>c \<in> set needle. \<not> isspace c"
  shows "hay = pre @ needle @ suf \<Longrightarrow> \<exists>tok \<in> set (split_ws hay). str_in needle tok"
proof (induction hay arbitrary: pre rule: split_ws.induct)
  case 1
  with assms(1) show ?case by simp
next
  case (2 c cs)
  from assms obtain n ns where needle: "needle = n # ns" and n: "\<not> isspace n"
    by (cases needle) auto
  show ?case
  proof (cases "isspace c")
    case True
    with 2(3) needle n obtain pre' where "pre = c # pre'" by (cases pre) auto
    with 2(3) have "cs = pre' @ needle @ suf" by simp
    with 2(1) True have "\<exists>tok \<in> set (split_ws cs). str_in needle tok" by blast
    with True show ?thesis by simp
  next
    case False
    define tok where "tok = c # takeWhile (\<lambda>x. \<not> isspace x) cs"
    define dw where "dw = dropWhile (\<lambda>x. \<not> isspace x) cs"
    have sp: "split_ws (c # cs) = tok # split_ws dw" using False by (simp add: tok_def dw_def)
    have dw_space: "dw \<noteq> [] \<Longrightarrow> isspace (hd dw)"
      unfolding dw_def using hd_dropWhile [of "\<lambda>x. \<not> isspace x" cs] by blast
    have "c # cs = tok @ dw" by (simp add: tok_def dw_def)
    with 2(3) have "pre @ (needle @ suf) = tok @ dw" by simp
    then have "\<exists>us. pre = tok @ us \<and> us @ (needle @ suf) = dw
                  \<or> pre @ us = tok \<and> needle @ suf = us @ dw"
      by (simp only: append_eq_append_conv2)
    then consider us where "pre = tok @ us" "us @ (needle @ suf) = dw"
      | us where "pre @ us = tok" "needle @ suf = us @ dw"
      by blast
    then show ?thesis
    proof cases
      case 1
      then have "dw = us @ needle @ suf" by simp
      with 2(2) False have "\<exists>t \<in> set (split_ws dw). str_in needle t"
        unfolding dw_def by blast
      with sp show ?thesis by simp
    next
      case 2
      from 2(2) have "\<exists>vs. needle = us @ vs \<and> vs @ suf = dw \<or> needle @ vs = us \<and> suf = vs @ dw"
        by (simp only: append_eq_append_conv2)
      then consider vs where "needle = us @ vs" "vs @ suf = dw" "vs \<noteq> []"
        | vs where "needle @ vs = us"
      proof -
        assume a: "\<And>vs. needle = us @ vs \<Longrightarrow> vs @ suf = dw \<Longrightarrow> vs \<noteq> [] \<Longrightarrow> thesis"
          and b: "\<And>vs. needle @ vs = us \<Longrightarrow> thesis"
          and c: "\<exists>vs. needle = us @ vs \<and> vs @ suf = dw \<or> needle @ vs = us \<and> suf = vs @ dw"
        from c obtain vs where vs: "needle = us @ vs \<and> vs @ suf = dw \<or> needle @ vs = us \<and> suf = vs @ dw"
          by blast
        show thesis
        proof (cases "vs = []")
          case True
          with vs have "needle @ [] = us" by auto
          then show ?thesis by (rule b)
        next
          case False
          with vs a b show ?thesis by blast
        qed
      qed
      then have "\<exists>s. us = needle @ s"
      proof cases
        case 1
        then obtain v vs' where v: "vs = v # vs'" by (cases vs) auto
        with 1 have d: "dw = v # vs' @ suf" by simp
        then have "isspace (hd dw)" using dw_space by simp
        with d have "isspace v" by simp
        moreover have "v \<in> set needle" using 1 v by simp
        ultimately show ?thesis using assms(2) by blast
      next
        case 2
        then show ?thesis by auto
      qed
      then obtain s where "us = needle @ s" by blast
      with 2(1) have "tok = pre @ needle @ s" by simp
      then have "str_in needle tok" unfolding str_in_iff by blast
      with sp show ?thesis by simp
    qed
  qed
qed

section \<open>Fuzzification\<close>

lemma fuzzify_set: "set (fuzzify w) = {take n w |n. 3 \<le> n \<and> n \<le> length w} \<union> {w}"
  by (auto simp: fuzzify_def)

lemma fuzzify_word: 
  assumes "t \<in> set (fuzzify w)" "w \<noteq> []"
  shows "t \<noteq> [] \<and> set t \<subseteq> set w"
proof -
  from assms(1) consider n where "t = take n w" "3 \<le> n" "n \<le> length w" | "t = w"
    by (auto simp: fuzzify_set)
  then show ?thesis
  proof cases
    case 1
    then have "t \<noteq> []" by auto
    moreover have "set t \<subseteq> set w" unfolding 1(1) by (rule set_take_subset)
    ultimately show ?thesis by simp
  next
    case 2
    with assms(2) show ?thesis by simp
  qed
qed

text \<open>
  C8. A token of at least three characters is expanded into its prefixes of length 3 up
  to its length minus one, and itself; a token of one or two characters into itself only.
\<close>

theorem fuzzify_prefixes:
  "(3 \<le> length w \<longrightarrow>
      set (fuzzify w) = {take n w |n. 3 \<le> n \<and> n \<le> length w - 1} \<union> {w})
   \<and> (1 \<le> length w \<and> length w < 3 \<longrightarrow> set (fuzzify w) = {w})"
proof (intro conjI impI)
  assume len: "3 \<le> length w"
  have "{take n w |n. 3 \<le> n \<and> n \<le> length w}
          = {take n w |n. 3 \<le> n \<and> n \<le> length w - 1} \<union> {w}"
  proof (intro set_eqI iffI)
    fix x assume "x \<in> {take n w |n. 3 \<le> n \<and> n \<le> length w}"
    then obtain n where n: "x = take n w" "3 \<le> n" "n \<le> length w" by blast
    show "x \<in> {take n w |n. 3 \<le> n \<and> n \<le> length w - 1} \<union> {w}"
    proof (cases "n = length w")
      case True
      with n show ?thesis by simp
    next
      case False
      with n have "n \<le> length w - 1" by arith
      with n show ?thesis by blast
    qed
  next
    fix x assume "x \<in> {take n w |n. 3 \<le> n \<and> n \<le> length w - 1} \<union> {w}"
    then consider n where "x = take n w" "3 \<le> n" "n \<le> length w - 1" | "x = w" by blast
    then show "x \<in> {take n w |n. 3 \<le> n \<and> n \<le> length w}"
    proof cases
      case 1
      then have "n \<le> length w" by arith
      with 1 show ?thesis by blast
    next
      case 2
      with len have "x = take (length w) w \<and> 3 \<le> length w \<and> length w \<le> length w" by simp
      then show ?thesis by blast
    qed
  qed
  then show "set (fuzzify w) = {take n w |n. 3 \<le> n \<and> n \<le> length w - 1} \<union> {w}"
    by (simp add: fuzzify_set)
next
  assume "1 \<le> length w \<and> length w < 3"
  then show "set (fuzzify w) = {w}" by (simp add: fuzzify_def)
qed

theorem fuzzify_prefixes_witness:
  "3 \<le> length ''abcdef''
   \<and> set (fuzzify ''abcdef'') = {take n ''abcdef'' |n. 3 \<le> n \<and> n \<le> length ''abcdef'' - 1} \<union> {''abcdef''}
   \<and> 1 \<le> length ''ab'' \<and> length ''ab'' < 3 \<and> set (fuzzify ''ab'') = {''ab''}"
  using fuzzify_prefixes [of "''abcdef''"] fuzzify_prefixes [of "''ab''"] by simp

section \<open>The index\<close>

text \<open>
  The index built from a corpus holds, for a term, the positions of the documents that
  have it among their terms, and no entry when there is none.
\<close>

lemma entry_index_add:
  "entry (index_add idx x ix) t = (if t = x then insert idx (entry ix t) else entry ix t)"
  by (simp add: entry_def index_add_def)

lemma entry_fold_index_add:
  "entry (fold (index_add idx) xs ix) t
     = (if t \<in> set xs then insert idx (entry ix t) else entry ix t)"
  by (induction xs arbitrary: ix) (auto simp: entry_index_add)

lemma fold_fold_concat: "fold (\<lambda>x. fold f (g x)) xs s = fold f (concat (map g xs)) s"
  by (induction xs arbitrary: s) simp_all

lemma entry_index_document:
  "entry (index_document idx doc ix) t
     = (if t \<in> set (document_terms doc) then insert idx (entry ix t) else entry ix t)"
  unfolding index_document_def Let_def fold_fold_concat document_terms_def
  by (rule entry_fold_index_add)

lemma entry_fold_documents:
  "entry (fold (\<lambda>(idx, document). index_document idx document) (enumerate n docs) ix) t
     = entry ix t \<union> {n + p |p. p < length docs \<and> t \<in> set (document_terms (docs ! p))}"
proof (induction docs arbitrary: n ix)
  case Nil
  then show ?case by simp
next
  case (Cons d ds)
  let ?ix = "index_document n d ix"
  have shift: "{Suc n + p |p. p < length ds \<and> t \<in> set (document_terms (ds ! p))}
        = {n + p |p. 0 < p \<and> p < length (d # ds) \<and> t \<in> set (document_terms ((d # ds) ! p))}"
    (is "?A = ?B")
  proof (intro set_eqI iffI)
    fix x assume "x \<in> ?A"
    then obtain p where "x = Suc n + p" "p < length ds" "t \<in> set (document_terms (ds ! p))"
      by blast
    then have "x = n + Suc p \<and> 0 < Suc p \<and> Suc p < length (d # ds)
                \<and> t \<in> set (document_terms ((d # ds) ! Suc p))" by simp
    then show "x \<in> ?B" by blast
  next
    fix x assume "x \<in> ?B"
    then obtain p where p: "x = n + p" "0 < p" "p < length (d # ds)"
       "t \<in> set (document_terms ((d # ds) ! p))" by blast
    then obtain q where q: "p = Suc q" by (cases p) auto
    with p have "x = Suc n + q \<and> q < length ds \<and> t \<in> set (document_terms (ds ! q))" by simp
    then show "x \<in> ?A" by blast
  qed
  have split: "{n + p |p. p < length (d # ds) \<and> t \<in> set (document_terms ((d # ds) ! p))}
        = (if t \<in> set (document_terms d) then {n} else {}) \<union> ?B"
    (is "?C = _")
  proof (intro set_eqI iffI)
    fix x assume "x \<in> ?C"
    then obtain p where p: "x = n + p" "p < length (d # ds)"
       "t \<in> set (document_terms ((d # ds) ! p))" by blast
    show "x \<in> (if t \<in> set (document_terms d) then {n} else {}) \<union> ?B"
    proof (cases p)
      case 0
      with p show ?thesis by simp
    next
      case (Suc q)
      with p have "0 < p" by simp
      with p show ?thesis by blast
    qed
  next
    fix x assume "x \<in> (if t \<in> set (document_terms d) then {n} else {}) \<union> ?B"
    then consider "t \<in> set (document_terms d)" "x = n" | "x \<in> ?B"
      by (auto split: if_splits)
    then show "x \<in> ?C"
    proof cases
      case 1
      then have "x = n + 0 \<and> 0 < length (d # ds) \<and> t \<in> set (document_terms ((d # ds) ! 0))"
        by simp
      then show ?thesis by blast
    next
      case 2
      then show ?thesis by blast
    qed
  qed
  have "entry (fold (\<lambda>(idx, document). index_document idx document) (enumerate n (d # ds)) ix) t
          = entry ?ix t \<union> ?A"
    by (simp add: Cons.IH)
  also have "\<dots> = entry ix t \<union> ((if t \<in> set (document_terms d) then {n} else {}) \<union> ?B)"
    unfolding shift by (auto simp: entry_index_document)
  finally show ?case unfolding split .
qed

lemma entry_build_index: "entry (build_index docs) t = positions_of docs t"
  unfolding build_index_def entry_fold_documents positions_of_def
  by (simp add: entry_def)

lemma nonempty_index_add: "nonempty_entries ix \<Longrightarrow> nonempty_entries (index_add idx x ix)"
  by (simp add: nonempty_entries_def index_add_def)

lemma nonempty_fold_index_add:
  "nonempty_entries ix \<Longrightarrow> nonempty_entries (fold (index_add idx) xs ix)"
  by (induction xs arbitrary: ix) (simp_all add: nonempty_index_add)

lemma nonempty_index_document:
  "nonempty_entries ix \<Longrightarrow> nonempty_entries (index_document idx doc ix)"
  unfolding index_document_def Let_def fold_fold_concat
  by (rule nonempty_fold_index_add)

lemma nonempty_fold_documents:
  "nonempty_entries ix \<Longrightarrow>
     nonempty_entries (fold (\<lambda>(idx, document). index_document idx document) (enumerate n docs) ix)"
  by (induction docs arbitrary: n ix) (simp_all add: nonempty_index_document)

lemma nonempty_build_index: "nonempty_entries (build_index docs)"
  unfolding build_index_def
  by (rule nonempty_fold_documents) (simp add: nonempty_entries_def)

lemma build_index_lookup:
  "build_index docs t = (if positions_of docs t = {} then None else Some (positions_of docs t))"
proof (cases "build_index docs t")
  case None
  then have "entry (build_index docs) t = {}" by (simp add: entry_def)
  then show ?thesis using None by (simp add: entry_build_index)
next
  case (Some s)
  then have "entry (build_index docs) t = s" by (simp add: entry_def)
  moreover have "s \<noteq> {}" using Some nonempty_build_index by (simp add: nonempty_entries_def)
  ultimately show ?thesis using Some by (simp add: entry_build_index)
qed

lemma index_init_engine:
  "index (init_engine docs) t
     = (if positions_of docs t = {} then None else Some (positions_of docs t))"
  by (simp add: init_engine_def build_index_lookup)

lemma positions_of_bounded: "positions_of docs t \<subseteq> {..< length docs}"
  by (auto simp: positions_of_def)

lemma positions_of_finite: "finite (positions_of docs t)"
  by (rule finite_subset [OF positions_of_bounded]) simp

lemma document_terms_word:
  assumes "t \<in> set (document_terms doc)"
  shows "t \<noteq> [] \<and> (\<forall>c \<in> set t. \<not> isspace c \<and> lower_char c = c \<and> c \<notin> set string_punctuation)"
proof -
  let ?text = "clean_string (join '' '' (vals doc))"
  from assms obtain w where w: "w \<in> set (split_ws ?text)" "t \<in> set (fuzzify w)"
    by (auto simp: document_terms_def)
  from w(1) have w1: "w \<noteq> []" "\<forall>c \<in> set w. \<not> isspace c" using split_ws_token by blast+
  from w(1) have w2: "set w \<subseteq> set ?text" by (rule split_ws_token_chars)
  from w(2) w1(1) have t: "t \<noteq> []" "set t \<subseteq> set w" using fuzzify_word by blast+
  show ?thesis
  proof (intro conjI ballI)
    show "t \<noteq> []" by (rule t(1))
  next
    fix c assume "c \<in> set t"
    with t(2) have cw: "c \<in> set w" by blast
    with w1(2) show "\<not> isspace c" by blast
    from cw w2 have "c \<in> set ?text" by blast
    then show "lower_char c = c" "c \<notin> set string_punctuation"
      using clean_string_chars by blast+
  qed
qed

lemma index_key_word:
  assumes "index (init_engine docs) t \<noteq> None"
  shows "t \<noteq> [] \<and> (\<forall>c \<in> set t. \<not> isspace c \<and> lower_char c = c \<and> c \<notin> set string_punctuation)"
proof -
  from assms have "positions_of docs t \<noteq> {}" by (simp add: index_init_engine split: if_splits)
  then obtain p where "t \<in> set (document_terms (docs ! p))" by (auto simp: positions_of_def)
  then show ?thesis by (rule document_terms_word)
qed

section \<open>Looking a query up\<close>

lemma idx_matchs_all_nonempty:
  "nonempty_entries ix \<Longrightarrow>
     idx_matchs_all ix ts = map (\<lambda>t. the (ix t)) (filter (\<lambda>t. ix t \<noteq> None) ts)"
  by (induction ts) (auto simp: nonempty_entries_def split: option.splits)

lemma corpus_lookup_in_range:
  "\<forall>i \<in> set is. i < length docs \<Longrightarrow> corpus_lookup docs is = Inr (map ((!) docs) is)"
  by (induction "is") simp_all

lemma foldl_inter: "foldl (\<inter>) m ms = m \<inter> \<Inter> (set ms)"
  by (induction ms arbitrary: m) auto

lemma lists_each_onceD: "lists_each_once iter \<Longrightarrow> finite S \<Longrightarrow> set (iter S) = S"
  by (simp add: lists_each_once_def)

lemma lists_each_once_sorted: "lists_each_once sorted_list_of_set"
  by (simp add: lists_each_once_def)

lemma get_results_init_engine:
  assumes "lists_each_once iter"
  shows "get_results iter (init_engine docs) q =
     (let matched = filter (\<lambda>t. index (init_engine docs) t \<noteq> None) (split_ws q)
      in if matched = [] then Inr []
         else Inr (map ((!) docs)
                    (iter (\<Inter>t \<in> set matched. the (index (init_engine docs) t)))))"
proof -
  let ?e = "init_engine docs"
  define matched where "matched = filter (\<lambda>t. index ?e t \<noteq> None) (split_ws q)"
  have ne: "nonempty_entries (index ?e)"
    by (simp add: init_engine_def nonempty_build_index)
  have ims: "idx_matchs_all (index ?e) (split_ws q) = map (\<lambda>t. the (index ?e t)) matched"
    unfolding matched_def using ne by (rule idx_matchs_all_nonempty)
  have "get_results iter ?e q =
          (if matched = [] then Inr []
           else Inr (map ((!) docs) (iter (\<Inter>t \<in> set matched. the (index ?e t)))))"
  proof (cases matched)
    case Nil
    then show ?thesis by (simp add: get_results_def ims)
  next
    case (Cons t ts)
    let ?S = "\<Inter>t \<in> set matched. the (index ?e t)"
    have inter: "foldl (\<inter>) (the (index ?e t)) (map (\<lambda>t. the (index ?e t)) ts) = ?S"
      by (simp add: foldl_inter Cons)
    have "t \<in> set matched" using Cons by simp
    then have t: "index ?e t \<noteq> None" by (simp add: matched_def)
    then have "the (index ?e t) = positions_of docs t"
      by (simp add: index_init_engine split: if_splits)
    moreover have "?S \<subseteq> the (index ?e t)" using Cons by auto
    ultimately have sub: "?S \<subseteq> positions_of docs t" by simp
    then have fin: "finite ?S" using positions_of_finite by (rule finite_subset)
    have so: "set (iter ?S) = ?S" using assms fin by (rule lists_each_onceD)
    have "\<forall>i \<in> set (iter ?S). i < length docs"
    proof
      fix i assume "i \<in> set (iter ?S)"
      then have "i \<in> positions_of docs t" using sub unfolding so by (rule rev_subsetD)
      then show "i < length docs" by (simp add: positions_of_def)
    qed
    then have cl: "corpus_lookup docs (iter ?S) = Inr (map ((!) docs) (iter ?S))"
      by (rule corpus_lookup_in_range)
    have "get_results iter ?e q
            = corpus_lookup (corpus ?e) (iter (foldl (\<inter>) (the (index ?e t)) (map (\<lambda>t. the (index ?e t)) ts)))"
      unfolding get_results_def ims Cons by (simp add: Let_def)
    also have "\<dots> = corpus_lookup docs (iter ?S)"
      unfolding inter by (simp add: init_engine_def)
    finally show ?thesis using cl Cons by simp
  qed
  then show ?thesis by (simp add: matched_def Let_def)
qed

lemma get_results_single:
  assumes "lists_each_once iter" "index (init_engine docs) t \<noteq> None"
  shows "get_results iter (init_engine docs) t = Inr (map ((!) docs) (iter (positions_of docs t)))"
proof -
  from assms(2) have w: "t \<noteq> []" "\<forall>c \<in> set t. \<not> isspace c" using index_key_word by blast+
  then have sp: "split_ws t = [t]" by (simp add: split_ws_single)
  from assms(2) have "the (index (init_engine docs) t) = positions_of docs t"
    by (simp add: index_init_engine split: if_splits)
  then show ?thesis using assms(2)
    by (simp add: get_results_init_engine [OF assms(1)] sp)
qed

text \<open>
  C4. On the engine built from a corpus, \<open>_get_results\<close> keeps the terms of the query that
  have an index entry and drops the others. When none is kept the result is empty;
  otherwise it is the documents of the corpus at the positions that lie in the entries of
  all the kept terms, in the order the interpreter lists that set.
\<close>

theorem unmatched_terms_skipped:
  assumes "lists_each_once iter"
  shows "get_results iter (init_engine docs) q =
     (let matched = filter (\<lambda>t. index (init_engine docs) t \<noteq> None) (split_ws q)
      in if matched = [] then Inr []
         else Inr (map ((!) docs)
                    (iter (\<Inter>t \<in> set matched. the (index (init_engine docs) t)))))"
  using assms by (rule get_results_init_engine)

theorem unmatched_terms_skipped_witness:
  "lists_each_once sorted_list_of_set
   \<and> get_results sorted_list_of_set (init_engine [doc1, doc2]) ''findmea1 notaterm document2'' =
       (let matched = filter (\<lambda>t. index (init_engine [doc1, doc2]) t \<noteq> None)
                        (split_ws ''findmea1 notaterm document2'')
        in if matched = [] then Inr []
           else Inr (map ((!) [doc1, doc2])
                      (sorted_list_of_set
                         (\<Inter>t \<in> set matched. the (index (init_engine [doc1, doc2]) t)))))
   \<and> filter (\<lambda>t. index (init_engine [doc1, doc2]) t \<noteq> None)
        (split_ws ''findmea1 notaterm document2'') = [''findmea1'', ''document2'']
   \<and> get_results sorted_list_of_set (init_engine [doc1, doc2]) ''findmea1 notaterm document2''
       = Inr [doc2]"
proof -
  have h: "lists_each_once sorted_list_of_set" by (rule lists_each_once_sorted)
  have m: "filter (\<lambda>t. index (init_engine [doc1, doc2]) t \<noteq> None)
        (split_ws ''findmea1 notaterm document2'') = [''findmea1'', ''document2'']"
    by code_simp
  have r: "get_results sorted_list_of_set (init_engine [doc1, doc2]) ''findmea1 notaterm document2''
       = Inr [doc2]"
    by code_simp
  from unmatched_terms_skipped [OF h, of "[doc1, doc2]" "''findmea1 notaterm document2''"] h m r
  show ?thesis by blast
qed

section \<open>The prefix law\<close>

text \<open>
  C1. Prefix law. Let \<open>w\<close> be a token of the cleaned text of the document at position
  \<open>p\<close> of the corpus. Every prefix of \<open>w\<close> of length 3 up to the length of \<open>w\<close> is a query
  that passes validation, and \<open>evaluate_query\<close> returns for it an envelope whose data
  contain that document.
\<close>

theorem prefix_law:
  assumes order: "lists_each_once (set_order rt)"
    and p: "p < length docs"
    and w: "w \<in> set (split_ws (clean_string (join '' '' (vals (docs ! p)))))"
    and n: "3 \<le> n" "n \<le> length w"
  shows "\<exists>r. evaluate_query rt (init_engine docs) (take n w) None = (Inr r, init_engine docs)
              \<and> query r = take n w \<and> docs ! p \<in> set (data r)"
proof -
  let ?q = "take n w"
  let ?e = "init_engine docs"
  have "?q \<in> set (fuzzify w)" using n by (auto simp: fuzzify_set)
  with w have terms: "?q \<in> set (document_terms (docs ! p))" by (auto simp: document_terms_def)
  with p have pos: "p \<in> positions_of docs ?q" by (simp add: positions_of_def)
  then have entry: "index ?e ?q \<noteq> None" by (auto simp: index_init_engine)
  from terms have word: "\<forall>c \<in> set ?q. \<not> isspace c"
    and fixed: "\<forall>c \<in> set ?q. lower_char c = c \<and> c \<notin> set string_punctuation"
    using document_terms_word by blast+
  have len: "length ?q = n" using n by simp
  have "strip ?q = ?q" using word by (rule strip_no_ws)
  then have valid: "validate_query ?q 3 = Inr ()" using n(1) len by (simp add: validate_query_def)
  have clean: "clean_string ?q = ?q" using fixed by (rule clean_string_fixed)
  have res: "get_results (set_order rt) ?e ?q
               = Inr (map ((!) docs) (set_order rt (positions_of docs ?q)))"
    using order entry by (rule get_results_single)
  have "set (set_order rt (positions_of docs ?q)) = positions_of docs ?q"
    using order positions_of_finite by (rule lists_each_onceD)
  with pos have mem: "docs ! p \<in> set (map ((!) docs) (set_order rt (positions_of docs ?q)))"
    by simp
  let ?r = "Results_init (float_mul_1e_6 rt) ?q (map ((!) docs) (set_order rt (positions_of docs ?q)))
              (time_ns_end rt - time_ns_start rt)"
  have "evaluate_query rt ?e ?q None = (Inr ?r, ?e)"
    by (simp add: evaluate_query_def Let_def valid clean res)
  moreover have "query ?r = ?q" by (simp add: Results_init_def)
  moreover have "docs ! p \<in> set (data ?r)" using mem by (simp add: Results_init_def)
  ultimately show ?thesis by blast
qed

theorem prefix_law_witness:
  "lists_each_once (set_order example_runtime)
   \<and> (0::nat) < length [doc1]
   \<and> ''findmea1'' \<in> set (split_ws (clean_string (join '' '' (vals ([doc1] ! 0)))))
   \<and> (3::nat) \<le> 4 \<and> 4 \<le> length ''findmea1''
   \<and> (\<exists>r. evaluate_query example_runtime (init_engine [doc1]) (take 4 ''findmea1'') None
               = (Inr r, init_engine [doc1])
            \<and> query r = take 4 ''findmea1'' \<and> [doc1] ! 0 \<in> set (data r))"
proof -
  have h1: "lists_each_once (set_order example_runtime)"
    by (simp add: example_runtime_def lists_each_once_sorted)
  have h2: "(0::nat) < length [doc1]" by simp
  have h3: "''findmea1'' \<in> set (split_ws (clean_string (join '' '' (vals ([doc1] ! 0)))))"
    by code_simp
  have h4: "(3::nat) \<le> 4" by simp
  have h5: "4 \<le> length ''findmea1''" by simp
  from prefix_law [OF h1 h2 h3 h4 h5] h1 h2 h3 h4 h5 show ?thesis by blast
qed

section \<open>Two terms\<close>

lemma get_results_two_terms:
  assumes order: "lists_each_once iter"
    and t1: "index (init_engine docs) t1 \<noteq> None"
    and t2: "index (init_engine docs) t2 \<noteq> None"
  shows "\<exists>r12 r1 r2.
           get_results iter (init_engine docs) (t1 @ '' '' @ t2) = Inr r12
         \<and> get_results iter (init_engine docs) t1 = Inr r1
         \<and> get_results iter (init_engine docs) t2 = Inr r2
         \<and> set r12 = set r1 \<inter> set r2"
proof -
  let ?e = "init_engine docs"
  let ?P1 = "positions_of docs t1" and ?P2 = "positions_of docs t2"
  from t1 have w1: "t1 \<noteq> []" "\<forall>c \<in> set t1. \<not> isspace c" using index_key_word by blast+
  from t2 have w2: "t2 \<noteq> []" "\<forall>c \<in> set t2. \<not> isspace c" using index_key_word by blast+
  have sp: "split_ws (t1 @ '' '' @ t2) = [t1, t2]"
    using w1(2,1) w2(2,1) by (rule split_ws_pair)
  from t1 have e1: "the (index ?e t1) = ?P1" by (simp add: index_init_engine split: if_splits)
  from t2 have e2: "the (index ?e t2) = ?P2" by (simp add: index_init_engine split: if_splits)
  have "get_results iter ?e (t1 @ '' '' @ t2) =
     (let matched = filter (\<lambda>t. index ?e t \<noteq> None) (split_ws (t1 @ '' '' @ t2))
      in if matched = [] then Inr []
         else Inr (map ((!) docs) (iter (\<Inter>t \<in> set matched. the (index ?e t)))))"
    using order by (rule get_results_init_engine)
  also have "\<dots> = Inr (map ((!) docs) (iter (?P1 \<inter> ?P2)))"
    unfolding sp using t1 t2 by (simp add: e1 e2)
  finally have r12:
    "get_results iter ?e (t1 @ '' '' @ t2) = Inr (map ((!) docs) (iter (?P1 \<inter> ?P2)))" .
  have r1: "get_results iter ?e t1 = Inr (map ((!) docs) (iter ?P1))"
    using order t1 by (rule get_results_single)
  have r2: "get_results iter ?e t2 = Inr (map ((!) docs) (iter ?P2))"
    using order t2 by (rule get_results_single)
  have s12: "set (iter (?P1 \<inter> ?P2)) = ?P1 \<inter> ?P2"
    using order by (rule lists_each_onceD) (simp add: positions_of_finite)
  have s1: "set (iter ?P1) = ?P1" using order positions_of_finite by (rule lists_each_onceD)
  have s2: "set (iter ?P2) = ?P2" using order positions_of_finite by (rule lists_each_onceD)
  have "(!) docs ` (?P1 \<inter> ?P2) = (!) docs ` ?P1 \<inter> (!) docs ` ?P2"
  proof (intro set_eqI iffI)
    fix d assume "d \<in> (!) docs ` (?P1 \<inter> ?P2)"
    then show "d \<in> (!) docs ` ?P1 \<inter> (!) docs ` ?P2" by blast
  next
    fix d assume "d \<in> (!) docs ` ?P1 \<inter> (!) docs ` ?P2"
    then obtain i j where i: "i \<in> ?P1" "d = docs ! i" and j: "j \<in> ?P2" "d = docs ! j" by blast
    from j have "t2 \<in> set (document_terms d)" by (simp add: positions_of_def)
    with i have "i \<in> ?P2" by (simp add: positions_of_def)
    with i show "d \<in> (!) docs ` (?P1 \<inter> ?P2)" by blast
  qed
  then have "set (map ((!) docs) (iter (?P1 \<inter> ?P2)))
     = set (map ((!) docs) (iter ?P1)) \<inter> set (map ((!) docs) (iter ?P2))"
    by (simp add: s12 s1 s2)
  with r12 r1 r2 show ?thesis by blast
qed

text \<open>
  C3. When \<open>t1\<close> and \<open>t2\<close> both have an entry in the index of the engine built from a
  corpus, the documents \<open>_get_results\<close> returns for the query \<open>t1 t2\<close> are, as a set, the
  documents it returns for \<open>t1\<close> that it also returns for \<open>t2\<close>.
\<close>

theorem two_term_intersection:
  assumes order: "lists_each_once iter"
    and t1: "index (init_engine docs) t1 \<noteq> None"
    and t2: "index (init_engine docs) t2 \<noteq> None"
  shows "\<exists>r12 r1 r2.
           get_results iter (init_engine docs) (t1 @ '' '' @ t2) = Inr r12
         \<and> get_results iter (init_engine docs) t1 = Inr r1
         \<and> get_results iter (init_engine docs) t2 = Inr r2
         \<and> set r12 = set r1 \<inter> set r2"
  using order t1 t2 by (rule get_results_two_terms)

theorem two_term_intersection_witness:
  "lists_each_once sorted_list_of_set
   \<and> index (init_engine [doc1, doc2]) ''findmea1'' \<noteq> None
   \<and> index (init_engine [doc1, doc2]) ''document2'' \<noteq> None
   \<and> (\<exists>r12 r1 r2.
           get_results sorted_list_of_set (init_engine [doc1, doc2]) (''findmea1'' @ '' '' @ ''document2'') = Inr r12
         \<and> get_results sorted_list_of_set (init_engine [doc1, doc2]) ''findmea1'' = Inr r1
         \<and> get_results sorted_list_of_set (init_engine [doc1, doc2]) ''document2'' = Inr r2
         \<and> set r12 = set r1 \<inter> set r2)"
proof -
  have h: "lists_each_once sorted_list_of_set" by (rule lists_each_once_sorted)
  have a: "index (init_engine [doc1, doc2]) ''findmea1'' \<noteq> None" by code_simp
  have b: "index (init_engine [doc1, doc2]) ''document2'' \<noteq> None" by code_simp
  from two_term_intersection [OF h a b] h a b show ?thesis by blast
qed

text \<open>
  The same through \<open>evaluate_query\<close>. An index key is its own cleaned form, and the query
  \<open>t1 t2\<close> always has valid length; a term alone is a valid query when it has three
  characters or more (a shorter one is rejected before the lookup).
\<close>

lemma evaluate_query_unsorted_data:
  assumes "lists_each_once (set_order rt)" and "validate_query q 3 = Inr ()"
  shows "\<exists>r. evaluate_query rt (init_engine docs) q None = (Inr r, init_engine docs)
              \<and> get_results (set_order rt) (init_engine docs) (clean_string q) = Inr (data r)"
  using assms(2)
  by (simp add: evaluate_query_def Let_def get_results_init_engine [OF assms(1)] Results_init_def)

lemma two_term_query_valid:
  assumes "index (init_engine docs) t1 \<noteq> None" and "index (init_engine docs) t2 \<noteq> None"
  shows "validate_query (t1 @ '' '' @ t2) 3 = Inr ()
         \<and> clean_string (t1 @ '' '' @ t2) = t1 @ '' '' @ t2"
proof -
  from assms(1) have w1: "t1 \<noteq> []"
    "\<forall>c \<in> set t1. \<not> isspace c \<and> lower_char c = c \<and> c \<notin> set string_punctuation"
    using index_key_word by blast+
  from assms(2) have w2: "t2 \<noteq> []"
    "\<forall>c \<in> set t2. \<not> isspace c \<and> lower_char c = c \<and> c \<notin> set string_punctuation"
    using index_key_word by blast+
  let ?q = "t1 @ '' '' @ t2"
  have "hd ?q = hd t1" using w1(1) by simp
  then have h: "\<not> isspace (hd ?q)" using w1 by simp
  have "last ?q = last t2" using w2(1) by simp
  then have l: "\<not> isspace (last ?q)" using w2 by simp
  have "strip ?q = ?q" using _ h l by (rule strip_word) simp
  moreover have "3 \<le> length ?q"
    using w1(1) w2(1) by (cases t1; cases t2) simp_all
  ultimately have v: "validate_query ?q 3 = Inr ()" by (simp add: validate_query_def)
  have "\<forall>c \<in> set ?q. lower_char c = c \<and> c \<notin> set string_punctuation"
    using w1(2) w2(2) space_clean by auto
  then have "clean_string ?q = ?q" by (rule clean_string_fixed)
  with v show ?thesis by simp
qed

lemma single_term_query_valid:
  assumes "index (init_engine docs) t \<noteq> None" and "3 \<le> length t"
  shows "validate_query t 3 = Inr () \<and> clean_string t = t"
proof -
  from assms(1) have w: "\<forall>c \<in> set t. \<not> isspace c"
    "\<forall>c \<in> set t. lower_char c = c \<and> c \<notin> set string_punctuation"
    using index_key_word by blast+
  have "strip t = t" using w(1) by (rule strip_no_ws)
  with assms(2) have "validate_query t 3 = Inr ()" by (simp add: validate_query_def)
  moreover have "clean_string t = t" using w(2) by (rule clean_string_fixed)
  ultimately show ?thesis by simp
qed

lemma two_term_query_evaluated:
  assumes order: "lists_each_once (set_order rt)"
    and t1: "index (init_engine docs) t1 \<noteq> None" "3 \<le> length t1"
    and t2: "index (init_engine docs) t2 \<noteq> None" "3 \<le> length t2"
  shows "\<exists>r12 r1 r2.
           evaluate_query rt (init_engine docs) (t1 @ '' '' @ t2) None = (Inr r12, init_engine docs)
         \<and> evaluate_query rt (init_engine docs) t1 None = (Inr r1, init_engine docs)
         \<and> evaluate_query rt (init_engine docs) t2 None = (Inr r2, init_engine docs)
         \<and> set (data r12) = set (data r1) \<inter> set (data r2)"
proof -
  let ?e = "init_engine docs"
  from two_term_query_valid [OF t1(1) t2(1)]
  have v12: "validate_query (t1 @ '' '' @ t2) 3 = Inr ()"
    and c12: "clean_string (t1 @ '' '' @ t2) = t1 @ '' '' @ t2" by blast+
  from single_term_query_valid [OF t1] have v1: "validate_query t1 3 = Inr ()"
    and c1: "clean_string t1 = t1" by blast+
  from single_term_query_valid [OF t2] have v2: "validate_query t2 3 = Inr ()"
    and c2: "clean_string t2 = t2" by blast+
  from evaluate_query_unsorted_data [OF order v12, of docs] obtain r12 where
    r12: "evaluate_query rt ?e (t1 @ '' '' @ t2) None = (Inr r12, ?e)"
         "get_results (set_order rt) ?e (t1 @ '' '' @ t2) = Inr (data r12)"
    unfolding c12 by blast
  from evaluate_query_unsorted_data [OF order v1, of docs] obtain r1 where
    r1: "evaluate_query rt ?e t1 None = (Inr r1, ?e)"
        "get_results (set_order rt) ?e t1 = Inr (data r1)"
    unfolding c1 by blast
  from evaluate_query_unsorted_data [OF order v2, of docs] obtain r2 where
    r2: "evaluate_query rt ?e t2 None = (Inr r2, ?e)"
        "get_results (set_order rt) ?e t2 = Inr (data r2)"
    unfolding c2 by blast
  from get_results_two_terms [OF order t1(1) t2(1)] r12(2) r1(2) r2(2)
  have "set (data r12) = set (data r1) \<inter> set (data r2)" by auto
  with r12(1) r1(1) r2(1) show ?thesis by blast
qed

section \<open>Validation\<close>

lemma str_int_3: "str_int 3 = ''3''"
  by code_simp

text \<open>
  C2. A query whose stripped length is below \<open>n\<close> makes \<open>_validate_query\<close> raise
  \<open>InvalidQueryError\<close> with the message "Query must be at least n characters". With the
  default 3, \<open>evaluate_query\<close> raises that error whatever the corpus, the index and
  \<open>sort_by\<close> are: the outcome is fixed before the index is read, and no result is produced.
\<close>

theorem short_query_rejected:
  "(int (length (strip q)) < n \<longrightarrow>
      validate_query q n
        = Inl (InvalidQueryError (''Query must be at least '' @ str_int n @ '' characters'')))
   \<and> (length (strip q) < 3 \<longrightarrow>
      evaluate_query rt eng q sort_by
        = (Inl (InvalidQueryError ''Query must be at least 3 characters''), eng))"
proof (intro conjI impI)
  assume "int (length (strip q)) < n"
  then show "validate_query q n
        = Inl (InvalidQueryError (''Query must be at least '' @ str_int n @ '' characters''))"
    by (simp add: validate_query_def)
next
  assume "length (strip q) < 3"
  then have "validate_query q 3
        = Inl (InvalidQueryError (''Query must be at least '' @ str_int 3 @ '' characters''))"
    by (simp add: validate_query_def)
  then show "evaluate_query rt eng q sort_by
        = (Inl (InvalidQueryError ''Query must be at least 3 characters''), eng)"
    by (simp add: evaluate_query_def str_int_3)
qed

theorem short_query_rejected_witness:
  "int (length (strip '' te '')) < 3
   \<and> validate_query '' te '' 3 = Inl (InvalidQueryError ''Query must be at least 3 characters'')
   \<and> length (strip '' te '') < 3
   \<and> evaluate_query example_runtime (init_engine [doc1]) '' te '' (Some ''document'')
        = (Inl (InvalidQueryError ''Query must be at least 3 characters''), init_engine [doc1])"
proof -
  have l: "length (strip '' te '') < 3" by code_simp
  then have i: "int (length (strip '' te '')) < 3" by simp
  from short_query_rejected [of "'' te ''" 3 example_runtime "init_engine [doc1]" "Some ''document''"]
    l i show ?thesis by (simp add: str_int_3)
qed

section \<open>Evaluation does not write\<close>


section \<open>Sorting\<close>

text \<open>
  The key function never raises on a document the partition keeps: a term without
  whitespace that occurs in the cleaned cell occurs in one of its tokens.
\<close>

lemma first_position:
  assumes "\<exists>t \<in> set toks. P t"
  shows "\<exists>ps. map fst (filter (\<lambda>(i, t). P t) (enumerate n toks))
           = (n + length (takeWhile (\<lambda>t. \<not> P t) toks)) # ps"
  using assms
proof (induction toks arbitrary: n)
  case Nil
  then show ?case by simp
next
  case (Cons t ts)
  show ?case
  proof (cases "P t")
    case True
    then show ?thesis by simp
  next
    case False
    with Cons.prems have "\<exists>t \<in> set ts. P t" by simp
    then have "\<exists>ps. map fst (filter (\<lambda>(i, t). P t) (enumerate (Suc n) ts))
           = (Suc n + length (takeWhile (\<lambda>t. \<not> P t) ts)) # ps"
      by (rule Cons.IH)
    with False show ?thesis by simp
  qed
qed

lemma getattr_field: "field_text doc name = Some text \<Longrightarrow> getattr doc name = Some (AttrStr text)"
  by (simp add: getattr_def field_text_def)

lemma sorter_anchor_position:
  assumes "term \<noteq> []" and "\<forall>c \<in> set term. \<not> isspace c" and "has_anchor term name doc"
  shows "sorter term name doc = Inr (anchor_position term name doc)"
proof -
  from assms(3) obtain cell where ft: "field_text doc name = Some cell"
    and sub: "str_in term (clean_string cell)"
    by (auto simp: has_anchor_def split: option.splits)
  from sub obtain pre suf where "clean_string cell = pre @ term @ suf"
    unfolding str_in_iff by blast
  with assms(1,2) have "\<exists>tok \<in> set (split_ws (clean_string cell)). str_in term tok"
    by (rule token_contains)
  then have "\<exists>ps.
    map fst (filter (\<lambda>(i, token). str_in term token) (enumerate 0 (split_ws (clean_string cell))))
       = (0 + length (takeWhile (\<lambda>t. \<not> str_in term t) (split_ws (clean_string cell)))) # ps"
    by (rule first_position)
  then obtain ps where
    "map fst (filter (\<lambda>(i, token). str_in term token) (enumerate 0 (split_ws (clean_string cell))))
       = (0 + length (takeWhile (\<lambda>t. \<not> str_in term t) (split_ws (clean_string cell)))) # ps" ..
  then show ?thesis
    by (simp add: sorter_def getattr_field [OF ft] anchor_position_def ft)
qed

lemma partition_docs_fields:
  assumes "\<forall>d \<in> set docs. field_text d name \<noteq> None"
  shows "partition_docs term name docs
           = Inr (filter (has_anchor term name) docs, filter (\<lambda>d. \<not> has_anchor term name d) docs)"
  using assms
proof (induction docs)
  case Nil
  then show ?case by simp
next
  case (Cons d ds)
  then obtain cell where ft: "field_text d name = Some cell" by auto
  from Cons have "partition_docs term name ds
           = Inr (filter (has_anchor term name) ds, filter (\<lambda>d. \<not> has_anchor term name d) ds)"
    by simp
  moreover have "has_anchor term name d = str_in term (clean_string cell)"
    by (simp add: has_anchor_def ft)
  ultimately show ?case
    by (simp add: getattr_field [OF ft])
qed

lemma decorate_keys:
  assumes "\<forall>x \<in> set xs. f x = Inr (k x)"
  shows "decorate f xs = Inr (map (\<lambda>x. (k x, x)) xs)"
  using assms by (induction xs) simp_all

lemma insort_key_decorated:
  "insort_key fst (k x, x) (map (\<lambda>x. (k x, x)) ys) = map (\<lambda>x. (k x, x)) (insort_key k x ys)"
  by (induction ys) simp_all

lemma sort_key_decorated:
  "sort_key fst (map (\<lambda>x. (k x, x)) xs) = map (\<lambda>x. (k x, x)) (sort_key k xs)"
  by (induction xs) (simp_all add: insort_key_decorated)

lemma sorted_by_key_keys:
  assumes "\<forall>x \<in> set xs. f x = Inr (k x)"
  shows "sorted_by_key f xs = Inr (sort_key k xs)"
  by (simp add: sorted_by_key_def decorate_keys [OF assms] sort_key_decorated comp_def)

lemma sort_results_fields:
  assumes q: "split_ws q = term # rest"
    and fields: "\<forall>d \<in> set results. field_text d (make_python_identifier sort_by) \<noteq> None"
  shows "sort_results q results sort_by =
           Inr (sort_key (anchor_position term (make_python_identifier sort_by))
                  (filter (has_anchor term (make_python_identifier sort_by)) results)
                @ filter (\<lambda>d. \<not> has_anchor term (make_python_identifier sort_by) d) results)"
proof -
  let ?name = "make_python_identifier sort_by"
  have "term \<in> set (split_ws q)" using q by simp
  then have t: "term \<noteq> []" "\<forall>c \<in> set term. \<not> isspace c" using split_ws_token by blast+
  have keys: "\<forall>d \<in> set (filter (has_anchor term ?name) results).
                 sorter term ?name d = Inr (anchor_position term ?name d)"
  proof
    fix d assume "d \<in> set (filter (has_anchor term ?name) results)"
    then have "has_anchor term ?name d" by simp
    with t show "sorter term ?name d = Inr (anchor_position term ?name d)"
      by (rule sorter_anchor_position)
  qed
  have part: "partition_docs term ?name results
           = Inr (filter (has_anchor term ?name) results,
                  filter (\<lambda>d. \<not> has_anchor term ?name d) results)"
    using fields by (rule partition_docs_fields)
  have sorted: "sorted_by_key (sorter term ?name) (filter (has_anchor term ?name) results)
           = Inr (sort_key (anchor_position term ?name) (filter (has_anchor term ?name) results))"
    using keys by (rule sorted_by_key_keys)
  show ?thesis
    unfolding sort_results_def q Let_def by (simp only: part sorted list.case sum.case prod.case)
qed

lemma anchor_position_first:
  assumes "term \<noteq> []" and "\<forall>c \<in> set term. \<not> isspace c"
    and ft: "field_text doc name = Some cell" and "has_anchor term name doc"
    and toks: "toks = split_ws (clean_string cell)"
  shows "anchor_position term name doc < length toks
         \<and> str_in term (toks ! anchor_position term name doc)
         \<and> (\<forall>j < anchor_position term name doc. \<not> str_in term (toks ! j))"
proof -
  let ?k = "length (takeWhile (\<lambda>token. \<not> str_in term token) toks)"
  have k: "anchor_position term name doc = ?k" by (simp add: anchor_position_def ft toks)
  from assms(4) have "str_in term (clean_string cell)" by (simp add: has_anchor_def ft)
  then obtain pre suf where "clean_string cell = pre @ term @ suf"
    unfolding str_in_iff by blast
  with assms(1,2) have "\<exists>tok \<in> set toks. str_in term tok"
    unfolding toks by (rule token_contains)
  then have "takeWhile (\<lambda>token. \<not> str_in term token) toks \<noteq> toks"
    by (simp add: takeWhile_eq_all_conv)
  then have "?k \<noteq> length toks"
    using takeWhile_eq_take [of "\<lambda>token. \<not> str_in term token" toks] by auto
  then have lt: "?k < length toks"
    using length_takeWhile_le [of "\<lambda>token. \<not> str_in term token" toks] by simp
  then have "\<not> \<not> str_in term (toks ! ?k)" by (rule nth_length_takeWhile)
  moreover have "\<forall>j < ?k. \<not> str_in term (toks ! j)"
  proof (intro allI impI)
    fix j assume "j < ?k"
    then have "takeWhile (\<lambda>token. \<not> str_in term token) toks ! j = toks ! j"
      by (rule takeWhile_nth)
    moreover have "takeWhile (\<lambda>token. \<not> str_in term token) toks ! j
                     \<in> set (takeWhile (\<lambda>token. \<not> str_in term token) toks)"
      using \<open>j < ?k\<close> by simp
    ultimately show "\<not> str_in term (toks ! j)" using set_takeWhileD by fastforce
  qed
  ultimately show ?thesis using lt unfolding k by blast
qed

text \<open>
  C5. Let the cleaned query have the first term \<open>term\<close>, and let \<open>sort_by\<close> resolve to a
  field of every result. Then \<open>_sort_results\<close> returns first the results whose cleaned cell
  contains \<open>term\<close>, in ascending order of the position of the first token of the cell that
  contains it, results of equal position in the order they had; and after them the other
  results, in the order they had.
\<close>

theorem sort_by_anchor_position:
  assumes q: "split_ws q = term # rest"
    and name: "name = make_python_identifier sort_by"
    and fields: "\<forall>d \<in> set results. field_text d name \<noteq> None"
  shows "\<exists>sorted_docs.
           sort_results q results sort_by
             = Inr (sorted_docs @ filter (\<lambda>d. \<not> has_anchor term name d) results)
         \<and> mset sorted_docs = mset (filter (has_anchor term name) results)
         \<and> sorted (map (anchor_position term name) sorted_docs)
         \<and> (\<forall>k. filter (\<lambda>d. anchor_position term name d = k) sorted_docs
                   = filter (\<lambda>d. anchor_position term name d = k)
                       (filter (has_anchor term name) results))"
proof -
  let ?s = "sort_key (anchor_position term name) (filter (has_anchor term name) results)"
  have "sort_results q results sort_by
          = Inr (?s @ filter (\<lambda>d. \<not> has_anchor term name d) results)"
    using q fields unfolding name by (rule sort_results_fields)
  moreover have "mset ?s = mset (filter (has_anchor term name) results)" by simp
  moreover have "sorted (map (anchor_position term name) ?s)" by simp
  moreover have "\<forall>k. filter (\<lambda>d. anchor_position term name d = k) ?s
                   = filter (\<lambda>d. anchor_position term name d = k)
                       (filter (has_anchor term name) results)"
    by (simp add: sort_key_stable)
  ultimately show ?thesis by blast
qed

theorem sort_by_anchor_position_witness:
  "split_ws ''findmea9'' = ''findmea9'' # []
   \<and> ''headerb'' = make_python_identifier ''HeaderB''
   \<and> list_all (\<lambda>d. field_text d ''headerb'' \<noteq> None) hits
   \<and> (\<exists>sorted_docs.
           sort_results ''findmea9'' hits ''HeaderB''
             = Inr (sorted_docs @ filter (\<lambda>d. \<not> has_anchor ''findmea9'' ''headerb'' d) hits)
         \<and> mset sorted_docs = mset (filter (has_anchor ''findmea9'' ''headerb'') hits)
         \<and> sorted (map (anchor_position ''findmea9'' ''headerb'') sorted_docs)
         \<and> (\<forall>k. filter (\<lambda>d. anchor_position ''findmea9'' ''headerb'' d = k) sorted_docs
                   = filter (\<lambda>d. anchor_position ''findmea9'' ''headerb'' d = k)
                       (filter (has_anchor ''findmea9'' ''headerb'') hits)))
   \<and> map (anchor_position ''findmea9'' ''headerb'') hits = [2, 2, 1, 1, 0]
   \<and> map (has_anchor ''findmea9'' ''headerb'') hits = [True, False, True, True, True]
   \<and> sort_results ''findmea9'' hits ''HeaderB''
        = Inr [hits ! 4, hits ! 2, hits ! 3, hits ! 0, hits ! 1]"
proof -
  have h1: "split_ws ''findmea9'' = ''findmea9'' # []" by code_simp
  have h2: "''headerb'' = make_python_identifier ''HeaderB''" by code_simp
  have h3: "list_all (\<lambda>d. field_text d ''headerb'' \<noteq> None) hits" by code_simp
  then have h3': "\<forall>d \<in> set hits. field_text d ''headerb'' \<noteq> None" by (simp add: list_all_iff)
  have e1: "map (anchor_position ''findmea9'' ''headerb'') hits = [2, 2, 1, 1, 0]" by code_simp
  have e2: "map (has_anchor ''findmea9'' ''headerb'') hits = [True, False, True, True, True]"
    by code_simp
  have e3: "sort_results ''findmea9'' hits ''HeaderB''
        = Inr [hits ! 4, hits ! 2, hits ! 3, hits ! 0, hits ! 1]" by code_simp
  from sort_by_anchor_position [OF h1 h2 h3'] h1 h2 h3 e1 e2 e3 show ?thesis by blast
qed

section \<open>Sorting an empty result\<close>

text \<open>
  A query of punctuation only passes validation and cleans to the empty string, which has
  no term.
\<close>

lemma clean_string_dots: "clean_string ''...'' = []"
  by code_simp

lemma validate_dots: "validate_query ''...'' 3 = Inr ()"
  by code_simp

text \<open>Without \<open>sort_by\<close> that query gives an envelope with no data.\<close>

lemma punctuation_query_unsorted:
  "evaluate_query rt eng ''...'' None
     = (Inr (Results_init (float_mul_1e_6 rt) ''...'' [] (time_ns_end rt - time_ns_start rt)), eng)"
  by (simp add: evaluate_query_def validate_dots clean_string_dots get_results_def)

text \<open>
  When the cleaned query has a term and nothing matches, \<open>_sort_results\<close> has no document
  to look a field up in, and the envelope is empty whatever \<open>sort_by\<close> names.
\<close>

lemma sort_results_empty:
  "split_ws q \<noteq> [] \<Longrightarrow> sort_results q [] sort_by = Inr []"
  by (simp add: sort_results_def sorted_by_key_def split: list.splits)

lemma empty_results_sorted:
  assumes "validate_query q 3 = Inr ()"
    and "split_ws (clean_string q) \<noteq> []"
    and "get_results (set_order rt) eng (clean_string q) = Inr []"
  shows "evaluate_query rt eng q (Some sort_by)
     = (Inr (Results_init (float_mul_1e_6 rt) q [] (time_ns_end rt - time_ns_start rt)), eng)"
  using assms by (simp add: evaluate_query_def Let_def sort_results_empty)

text \<open>
  C10. A query of valid length with an empty result is said to give an empty envelope
  under every non-empty \<open>sort_by\<close>. The query \<open>...\<close> has valid length and an empty result,
  yet with any non-empty \<open>sort_by\<close> the call raises \<open>IndexError\<close>, on every engine:
  \<open>query.split()[0]\<close> is evaluated before the loop over the results.
\<close>

theorem punctuation_query_sorted_raises:
  "evaluate_query rt eng ''...'' (Some (c # cs))
     = (Inl (IndexError ''list index out of range''), eng)"
  by (simp add: evaluate_query_def validate_dots clean_string_dots get_results_def sort_results_def)

section \<open>A sort field that is not a field\<close>

text \<open>
  When \<open>getattr\<close> fails on the first result, \<open>_sort_results\<close> raises the error that names
  the fields.
\<close>

lemma unknown_attribute_raises:
  assumes "split_ws q = term # rest"
    and "getattr doc (make_python_identifier sort_by) = None"
  shows "sort_results q (doc # docs) sort_by
           = Inl (could_not_sort (make_python_identifier sort_by) doc)"
  using assms by (simp add: sort_results_def Let_def)

lemma sort_by_unknown_raises:
  "fst (evaluate_query example_runtime (init_engine [doc1]) ''FindMe'' (Some ''Header C''))
     = Inl (AttributeError (''Could not sort by '' @ repr_str ''header_c''
               @ ''. Please use one of ('' @ repr_str ''document'' @ '', '' @ repr_str ''headerb'' @ '')''))"
  by code_simp

text \<open>
  A name of a method of the namedtuple is not a field, and \<open>getattr\<close> succeeds on it: the
  error is the one of calling \<open>lower\<close> on the method, and names no field.
\<close>

lemma sort_by_count_raises:
  "fst (evaluate_query example_runtime (init_engine [doc1]) ''FindMe'' (Some ''count''))
     = Inl (AttributeError (repr_str ''builtin_function_or_method''
                              @ '' object has no attribute '' @ repr_str ''lower''))"
  by code_simp

text \<open>
  C6. With a result that is not empty, a \<open>sort_by\<close> that resolves to no field is said to
  raise an \<open>AttributeError\<close> that names the fields. \<open>__doc__\<close> is no field of the documents,
  and the query \<open>FindMe\<close> has a result; the call raises nothing and returns the envelope,
  the documents compared by the docstring of their class.
\<close>

theorem sort_by_docstring_returns:
  "fst (evaluate_query example_runtime (init_engine [doc1]) ''FindMe'' (Some ''__doc__''))
     = Inr \<lparr>query = ''FindMe'', data = [doc1], execution_time = 1 / 4\<rparr>"
  by code_simp

section \<open>The envelope\<close>

text \<open>
  With distinct field names, as a namedtuple has them, the dictionary of a document pairs
  each field name with its cell, in the order of the fields.
\<close>

lemma update_fresh: "k \<notin> fst ` set al \<Longrightarrow> AList.update k v al = al @ [(k, v)]"
  by (induction al) auto

lemma foldl_update_distinct:
  "distinct (map fst (acc @ kvs)) \<Longrightarrow>
     foldl (\<lambda>d (k, v). AList.update k v d) acc kvs = acc @ kvs"
proof (induction kvs arbitrary: acc)
  case Nil
  then show ?case by simp
next
  case (Cons kv kvs)
  obtain k v where kv: "kv = (k, v)" by (cases kv)
  from Cons.prems have fresh: "k \<notin> fst ` set acc" by (auto simp: kv)
  from Cons.prems have "distinct (map fst ((acc @ [(k, v)]) @ kvs))" by (simp add: kv)
  then have "foldl (\<lambda>d (k, v). AList.update k v d) (acc @ [(k, v)]) kvs = (acc @ [(k, v)]) @ kvs"
    by (rule Cons.IH)
  then show ?case by (simp add: kv update_fresh [OF fresh])
qed

lemma py_dict_distinct: "distinct (map fst kvs) \<Longrightarrow> py_dict kvs = kvs"
  using foldl_update_distinct [of "[]" kvs] by (simp add: py_dict_def)

lemma document_dict_distinct:
  assumes "distinct (field_names d)" and "length (vals d) = length (field_names d)"
  shows "document_dict d = JObject (zip (field_names d) (map JString (vals d)))"
proof -
  have "map fst (zip (field_names d) (map JString (vals d))) = field_names d"
    using assms(2) by simp
  with assms(1) show ?thesis by (simp add: document_dict_def py_dict_distinct)
qed





end
